theory Spec2Isabelle
  imports Main
begin

section \<open>Shared data\<close>

type_synonym DocumentUri = string

record DocumentPosition =
  uri :: DocumentUri
  line :: nat
  character :: nat

text \<open>An LSP range: start and end position, each a (line, character) pair.\<close>

type_synonym Range = "(nat \<times> nat) \<times> (nat \<times> nat)"

section \<open>TaggedText and its evaluator\<close>

text \<open>
  A \<open>TaggedText\<close> value arrives as a JSON object. The evaluator looks for the three
  fields \<open>text\<close>, \<open>append\<close> and \<open>tag\<close> with the \<open>in\<close> operator, in this order, so the
  object is modelled with each field present (\<open>Some\<close>) or absent (\<open>None\<close>); an object
  with none of them is the malformed node.
\<close>

datatype 'tag TaggedText =
  TaggedText "string option" "'tag TaggedText list option" "('tag \<times> 'tag TaggedText) option"

abbreviation Text :: "string \<Rightarrow> 'tag TaggedText" where
  "Text s \<equiv> TaggedText (Some s) None None"

abbreviation Append :: "'tag TaggedText list \<Rightarrow> 'tag TaggedText" where
  "Append xs \<equiv> TaggedText None (Some xs) None"

abbreviation Tagged :: "'tag \<Rightarrow> 'tag TaggedText \<Rightarrow> 'tag TaggedText" where
  "Tagged t x \<equiv> TaggedText None None (Some (t, x))"

text \<open>
  What a render produces: a fragment holding a string, a fragment holding the rendered
  children in order, or the element returned by \<open>InnerTagUi\<close>.
\<close>

datatype 'o JSX = JText string | JFragment "'o JSX list" | JInner 'o

text \<open>
  A render fails with the \<open>Error\<close> thrown for a malformed node, or with whatever the
  tag handler throws.
\<close>

datatype 'e render_error = MalformedTaggedText | InnerTagUiError 'e

fun InteractiveTaggedText ::
    "(DocumentPosition \<Rightarrow> 'tag TaggedText \<Rightarrow> 'tag \<Rightarrow> 'e + 'o) \<Rightarrow> DocumentPosition \<Rightarrow>
     'tag TaggedText \<Rightarrow> 'e render_error + 'o JSX"
  and render_append ::
    "(DocumentPosition \<Rightarrow> 'tag TaggedText \<Rightarrow> 'tag \<Rightarrow> 'e + 'o) \<Rightarrow> DocumentPosition \<Rightarrow>
     'tag TaggedText list \<Rightarrow> 'e render_error + 'o JSX list"
where
  "InteractiveTaggedText InnerTagUi pos (TaggedText (Some s) a t) = Inr (JText s)"
| "InteractiveTaggedText InnerTagUi pos (TaggedText None (Some xs) t) =
     (case render_append InnerTagUi pos xs of
        Inl e \<Rightarrow> Inl e
      | Inr ys \<Rightarrow> Inr (JFragment ys))"
| "InteractiveTaggedText InnerTagUi pos (TaggedText None None (Some (tg, sub))) =
     (case InnerTagUi pos sub tg of
        Inl e \<Rightarrow> Inl (InnerTagUiError e)
      | Inr y \<Rightarrow> Inr (JInner y))"
| "InteractiveTaggedText InnerTagUi pos (TaggedText None None None) = Inl MalformedTaggedText"
| "render_append InnerTagUi pos [] = Inr []"
| "render_append InnerTagUi pos (x # xs) =
     (case InteractiveTaggedText InnerTagUi pos x of
        Inl e \<Rightarrow> Inl e
      | Inr y \<Rightarrow>
          (case render_append InnerTagUi pos xs of
             Inl e \<Rightarrow> Inl e
           | Inr ys \<Rightarrow> Inr (y # ys)))"

section \<open>Diagnostics\<close>

text \<open>
  \<open>DiagnosticWith\<close> is a diagnostic whose message has type \<open>'m\<close>: a plain string for
  the diagnostics pushed by the server (\<open>LeanDiagnostic\<close>), a \<open>TaggedText\<close> for the
  interactive ones. Severity is the LSP number (1 error .. 4 hint), absent when the
  server sends none.
\<close>

record 'm DiagnosticWith =
  range :: Range
  fullRange :: "Range option"
  severity :: "nat option"
  message :: 'm

type_synonym LeanDiagnostic = "string DiagnosticWith"



text \<open>The LSP error code "content modified".\<close>

definition ContentModified :: int where
  "ContentModified = - 32801"






text \<open>
  The handler of \<open>textDocument/publishDiagnostics\<close> in \<open>WithLspDiagnosticsContext\<close>:
  \<open>diags => new Map(diags).set(params.uri, params.diagnostics)\<close>.
\<close>

record PublishDiagnosticsParams =
  params_uri :: DocumentUri
  diagnostics :: "LeanDiagnostic list"

definition publishDiagnostics ::
    "PublishDiagnosticsParams \<Rightarrow> (DocumentUri \<rightharpoonup> LeanDiagnostic list) \<Rightarrow>
     (DocumentUri \<rightharpoonup> LeanDiagnostic list)" where
  "publishDiagnostics params diags = diags(params_uri params \<mapsto> diagnostics params)"

section \<open>The memoising wrapper \<open>lazy\<close>\<close>





section \<open>The delayed throttle \<open>useDelayedThrottled\<close>\<close>

text \<open>
  The hook keeps two refs, \<open>waiting\<close> and \<open>callbackRef\<close>, which live as long as the
  component does. \<open>timers\<close> holds the deadlines of the \<open>setTimeout\<close> callbacks that
  have been scheduled and have not run yet, oldest first. Time is a number of
  milliseconds.
\<close>

record 'a throttle =
  waiting :: bool
  callbackRef :: "'a option"
  timers :: "nat list"

definition throttle_new :: "'a throttle" where
  "throttle_new = \<lparr>waiting = False, callbackRef = None, timers = []\<rparr>"

text \<open>The body of the hook, run at every render: \<open>callbackRef.current = cb\<close>.\<close>

definition useDelayedThrottled :: "'a \<Rightarrow> 'a throttle \<Rightarrow> 'a throttle" where
  "useDelayedThrottled cb r = r\<lparr>callbackRef := Some cb\<rparr>"

text \<open>
  The function the hook returns, called at time \<open>now\<close>; \<open>ms\<close> is the interval of the
  render that made it.
\<close>

definition trigger :: "nat \<Rightarrow> nat \<Rightarrow> 'a throttle \<Rightarrow> 'a throttle" where
  "trigger ms now r =
     (if \<not> waiting r then r\<lparr>waiting := True, timers := timers r @ [now + ms]\<rparr> else r)"

text \<open>
  The \<open>setTimeout\<close> callback may run once its deadline has passed, the oldest pending one
  first. It clears \<open>waiting\<close> first and then calls \<open>callbackRef.current\<close>, if there is
  one.
\<close>

definition timer_due :: "nat \<Rightarrow> 'a throttle \<Rightarrow> bool" where
  "timer_due now r = (case timers r of [] \<Rightarrow> False | d # ds \<Rightarrow> d \<le> now)"

definition timer_fired :: "'a throttle \<Rightarrow> 'a throttle" where
  "timer_fired r = r\<lparr>waiting := False, timers := tl (timers r)\<rparr>"

text \<open>
  The scheduler on its own, driven by events: a render that supplies an action, a call of
  the trigger, time passing, the timer callback running, and the promise of the \<open>i\<close>-th
  outstanding action settling. \<open>running\<close> holds the actions that have been called and
  have not settled; \<open>invoked\<close> records every call of an action with its time.
\<close>

datatype 'a sched_event = Render 'a | Call | Elapse nat | Timeout | Finished nat

record 'a sched =
  refs :: "'a throttle"
  clock :: nat
  running :: "'a list"
  invoked :: "(nat \<times> 'a) list"

definition sched_init :: "'a \<Rightarrow> 'a sched" where
  "sched_init cb =
     \<lparr>refs = useDelayedThrottled cb throttle_new, clock = 0, running = [], invoked = []\<rparr>"

fun sched_step :: "nat \<Rightarrow> 'a sched_event \<Rightarrow> 'a sched \<Rightarrow> 'a sched" where
  "sched_step ms (Render cb) s = s\<lparr>refs := useDelayedThrottled cb (refs s)\<rparr>"
| "sched_step ms Call s = s\<lparr>refs := trigger ms (clock s) (refs s)\<rparr>"
| "sched_step ms (Elapse d) s = s\<lparr>clock := clock s + d\<rparr>"
| "sched_step ms Timeout s =
     (if timer_due (clock s) (refs s) then
        (case callbackRef (refs s) of
           None \<Rightarrow> s\<lparr>refs := timer_fired (refs s)\<rparr>
         | Some cb \<Rightarrow>
             s\<lparr>refs := timer_fired (refs s), running := running s @ [cb],
               invoked := invoked s @ [(clock s, cb)]\<rparr>)
      else s)"
| "sched_step ms (Finished i) s = s\<lparr>running := take i (running s) @ drop (Suc i) (running s)\<rparr>"

fun sched_run :: "nat \<Rightarrow> 'a sched_event list \<Rightarrow> 'a sched \<Rightarrow> 'a sched" where
  "sched_run ms [] s = s"
| "sched_run ms (e # es) s = sched_run ms es (sched_step ms e s)"

text \<open>
  The latest action supplied: the one of the last render in the event sequence, or the
  initial one when the sequence has no render.
\<close>

fun latest_action :: "'a \<Rightarrow> 'a sched_event list \<Rightarrow> 'a" where
  "latest_action a [] = a"
| "latest_action a (Render b # es) = latest_action b es"
| "latest_action a (e # es) = latest_action a es"

text \<open>
  What holds in every state the scheduler reaches: \<open>waiting\<close> is set exactly while a timer
  is pending, at most one timer is pending, its deadline lies at least \<open>ms\<close> after every
  earlier call of the action, no call lies in the future, the calls are at least \<open>ms\<close>
  apart, and an action has been supplied.
\<close>

definition sched_inv :: "nat \<Rightarrow> 'a sched \<Rightarrow> bool" where
  "sched_inv ms s =
     ((waiting (refs s) = (timers (refs s) \<noteq> []))
      \<and> length (timers (refs s)) \<le> 1
      \<and> (\<forall>d \<in> set (timers (refs s)). \<forall>x \<in> set (invoked s). fst x + ms \<le> d)
      \<and> (\<forall>x \<in> set (invoked s). fst x \<le> clock s)
      \<and> sorted_wrt (\<lambda>x y. fst x + ms \<le> fst y) (invoked s)
      \<and> callbackRef (refs s) \<noteq> None)"

section \<open>The goal-state controller \<open>InfoAux\<close>\<close>

datatype InfoStatus = Loading | Updating | Error | Ready

text \<open>
  The value a rejected request is caught with, by the tests the \<open>catch\<close> block makes on
  it, in the order it makes them:
  a string; an RPC error, with its \<open>code\<close> and the message \<open>mapRpcError(ex).message\<close>;
  an instance of \<open>Error\<close>, with \<open>ex.toString()\<close> and \<open>JSON.stringify(ex)\<close>;
  \<open>undefined\<close>; any other value, with \<open>JSON.stringify(ex)\<close>.
\<close>

datatype thrown =
    ThrownString string
  | ThrownRpcError int string
  | ThrownError string string
  | ThrownUndefined
  | ThrownOther string

text \<open>
  The serialised form of the value is empty: it is \<open>undefined\<close>, or \<open>JSON.stringify\<close>
  gives \<open>{}\<close> for it. A string serialises to a quoted string and an RPC error has the
  fields \<open>code\<close> and \<open>message\<close>, so neither is ever empty; an \<open>Error\<close> with no enumerable
  field of its own, such as \<open>new Error("boom")\<close>, serialises to \<open>{}\<close>.
\<close>

definition serializes_empty :: "thrown \<Rightarrow> bool" where
  "serializes_empty ex =
     (case ex of
        ThrownUndefined \<Rightarrow> True
      | ThrownError str json \<Rightarrow> json = ''{}''
      | ThrownOther json \<Rightarrow> json = ''{}''
      | ThrownString s \<Rightarrow> False
      | ThrownRpcError c m \<Rightarrow> False)"

text \<open>\<open>isRpcError(ex) && ex.code === RpcErrorCode.ContentModified\<close>\<close>

definition isContentModified :: "thrown \<Rightarrow> bool" where
  "isContentModified ex =
     (case ex of ThrownRpcError c m \<Rightarrow> c = ContentModified | _ \<Rightarrow> False)"

text \<open>
  The chain of tests that computes \<open>errorString\<close>; \<open>None\<close> is the branch that clears the
  error and returns.
\<close>

definition errorString :: "thrown \<Rightarrow> string option" where
  "errorString ex =
     (case ex of
        ThrownString s \<Rightarrow> Some s
      | ThrownRpcError c m \<Rightarrow> Some m
      | ThrownError str json \<Rightarrow> Some str
      | ThrownUndefined \<Rightarrow> None
      | ThrownOther json \<Rightarrow>
          if json = ''{}'' then None else Some (''Unrecognised error: '' @ json))"

text \<open>
  What the callback made at a render has captured: the position and the session of that
  render, and that render's \<open>triggerUpdate\<close>, which is to say its interval.
\<close>

record 's closure =
  c_pos :: DocumentPosition
  c_sess :: 's
  c_ms :: nat

text \<open>
  The props of \<open>InfoDisplay\<close> that are kept in the single piece of state \<open>displayProps\<close>
  (\<open>kind\<close> and \<open>onPin\<close>, which never change, are left out). Goals, term goal, widgets
  and sessions are opaque values of types \<open>'g\<close>, \<open>'t\<close>, \<open>'w\<close> and \<open>'s\<close>.
\<close>

record ('g, 't, 'w, 's) InfoDisplayProps =
  dp_pos :: DocumentPosition
  dp_goals :: "'g option"
  dp_termGoal :: "'t option"
  dp_error :: "string option"
  dp_rpcSess :: 's
  dp_userWidgets :: "'w option"

text \<open>
  The component: what the latest render was given (\<open>pos\<close>, the session \<open>rpcSess0\<close> of
  \<open>useRpcSessionAtPos(pos)\<close>, \<open>serverIsProcessing\<close>), its React state, the refs of the
  throttle, the time, and the update cycles whose requests are awaited (each with the
  closure that issued them, oldest first).
\<close>

record ('g, 't, 'w, 's) InfoAux =
  pos :: DocumentPosition
  rpcSess0 :: 's
  serverIsProcessing :: bool
  status :: InfoStatus
  goals :: "'g option"
  termGoal :: "'t option"
  userWidgets :: "'w option"
  error :: "string option"
  rpcSess :: 's
  displayProps :: "('g, 't, 'w, 's) InfoDisplayProps"
  shouldUpdateDisplay :: bool
  updateRefs :: "'s closure throttle"
  now :: nat
  inflight :: "'s closure list"

definition mkDisplayProps :: "('g, 't, 'w, 's) InfoAux \<Rightarrow> ('g, 't, 'w, 's) InfoDisplayProps" where
  "mkDisplayProps s =
     \<lparr>dp_pos = pos s, dp_goals = goals s, dp_termGoal = termGoal s, dp_error = error s,
      dp_rpcSess = rpcSess s, dp_userWidgets = userWidgets s\<rparr>"

text \<open>\<open>serverIsProcessing ? 500 : 50\<close>\<close>

definition interval :: "('g, 't, 'w, 's) InfoAux \<Rightarrow> nat" where
  "interval s = (if serverIsProcessing s then 500 else 50)"

text \<open>
  One render of the component body: the display props are refreshed if
  \<open>shouldUpdateDisplay\<close> is set, and the hook stores the callback of this render.
\<close>

definition render :: "('g, 't, 'w, 's) InfoAux \<Rightarrow> ('g, 't, 'w, 's) InfoAux" where
  "render s =
     (let s1 = (if shouldUpdateDisplay s
                then s\<lparr>displayProps := mkDisplayProps s, shouldUpdateDisplay := False\<rparr>
                else s)
      in s1\<lparr>updateRefs :=
               useDelayedThrottled \<lparr>c_pos = pos s1, c_sess = rpcSess0 s1, c_ms = interval s1\<rparr>
                 (updateRefs s1)\<rparr>)"

text \<open>\<open>triggerUpdate()\<close> of the current render.\<close>

definition triggerUpdate :: "('g, 't, 'w, 's) InfoAux \<Rightarrow> ('g, 't, 'w, 's) InfoAux" where
  "triggerUpdate s = s\<lparr>updateRefs := trigger (interval s) (now s) (updateRefs s)\<rparr>"

text \<open>The first render, followed by the effect, which runs on mount.\<close>

definition mount :: "DocumentPosition \<Rightarrow> 's \<Rightarrow> bool \<Rightarrow> ('g, 't, 'w, 's) InfoAux" where
  "mount p sess processing =
     triggerUpdate (render
       \<lparr>pos = p, rpcSess0 = sess, serverIsProcessing = processing, status = Loading,
        goals = None, termGoal = None, userWidgets = None, error = None, rpcSess = sess,
        displayProps =
          \<lparr>dp_pos = p, dp_goals = None, dp_termGoal = None, dp_error = None,
           dp_rpcSess = sess, dp_userWidgets = None\<rparr>,
        shouldUpdateDisplay = False, updateRefs = throttle_new, now = 0, inflight = []\<rparr>)"

text \<open>
  The callback given to the throttle, up to its \<open>await\<close>: the status becomes
  \<open>updating\<close> and the requests are issued for the captured position and session.
\<close>

definition startUpdate :: "'s closure \<Rightarrow> ('g, 't, 'w, 's) InfoAux \<Rightarrow> ('g, 't, 'w, 's) InfoAux" where
  "startUpdate c s = render (s\<lparr>status := Updating, inflight := inflight s @ [c]\<rparr>)"

text \<open>The callback after its \<open>await\<close>, when all requests succeeded.\<close>

definition onFulfilled ::
    "'s closure \<Rightarrow> 'g option \<times> 't option \<times> 'w option \<Rightarrow> ('g, 't, 'w, 's) InfoAux \<Rightarrow>
     ('g, 't, 'w, 's) InfoAux" where
  "onFulfilled c r s =
     (case r of (g, t, w) \<Rightarrow>
        render (s\<lparr>goals := g, termGoal := t, userWidgets := w, rpcSess := c_sess c,
                 status := Ready, shouldUpdateDisplay := True\<rparr>))"

text \<open>The \<open>catch\<close> block.\<close>

definition onRejected ::
    "'s closure \<Rightarrow> thrown \<Rightarrow> ('g, 't, 'w, 's) InfoAux \<Rightarrow> ('g, 't, 'w, 's) InfoAux" where
  "onRejected c ex s =
     (if isContentModified ex then
        s\<lparr>updateRefs := trigger (c_ms c) (now s) (updateRefs s)\<rparr>
      else
        (case errorString ex of
           None \<Rightarrow> render (s\<lparr>error := None\<rparr>)
         | Some msg \<Rightarrow>
             render (s\<lparr>error := Some (''Error fetching goals: '' @ msg), status := Error,
                      shouldUpdateDisplay := True\<rparr>)))"

text \<open>
  What happens to the component: it is rendered again with a position, a session and a
  processing flag (the effect calls \<open>triggerUpdate\<close> when the position or the flag has
  changed); the user asks for an update; time passes; the timer callback runs; the requests
  of the \<open>i\<close>-th awaited cycle settle. What settles is \<open>await allReq\<close>, the \<open>Promise.all\<close>
  of the goal, term goal and widget requests: it gives the three results (\<open>Inr\<close>) or throws
  the value one of them was rejected with (\<open>Inl\<close>). Cycles may settle in any order.
\<close>

datatype ('g, 't, 'w, 's) event =
    Rerender DocumentPosition 's bool
  | Update
  | Wait nat
  | TimerFires
  | Settled nat "thrown + 'g option \<times> 't option \<times> 'w option"

fun step :: "('g, 't, 'w, 's) event \<Rightarrow> ('g, 't, 'w, 's) InfoAux \<Rightarrow> ('g, 't, 'w, 's) InfoAux" where
  "step (Rerender p sess processing) s =
     (let s1 = render (s\<lparr>pos := p, rpcSess0 := sess, serverIsProcessing := processing\<rparr>)
      in if p \<noteq> pos s \<or> processing \<noteq> serverIsProcessing s then triggerUpdate s1 else s1)"
| "step Update s = triggerUpdate s"
| "step (Wait d) s = s\<lparr>now := now s + d\<rparr>"
| "step TimerFires s =
     (if timer_due (now s) (updateRefs s) then
        (case callbackRef (updateRefs s) of
           None \<Rightarrow> s\<lparr>updateRefs := timer_fired (updateRefs s)\<rparr>
         | Some c \<Rightarrow> startUpdate c (s\<lparr>updateRefs := timer_fired (updateRefs s)\<rparr>))
      else s)"
| "step (Settled i outcome) s =
     (if i < length (inflight s) then
        (let c = inflight s ! i;
             s1 = s\<lparr>inflight := take i (inflight s) @ drop (Suc i) (inflight s)\<rparr>
         in case outcome of
              Inr r \<Rightarrow> onFulfilled c r s1
            | Inl ex \<Rightarrow> onRejected c ex s1)
      else s)"

fun run :: "('g, 't, 'w, 's) event list \<Rightarrow> ('g, 't, 'w, 's) InfoAux \<Rightarrow> ('g, 't, 'w, 's) InfoAux" where
  "run [] s = s"
| "run (e # es) s = run es (step e s)"

text \<open>
  The events that neither start nor settle an update cycle: a render, a request for an
  update, time passing.
\<close>

fun quiet :: "('g, 't, 'w, 's) event \<Rightarrow> bool" where
  "quiet (Rerender p sess processing) = True"
| "quiet Update = True"
| "quiet (Wait d) = True"
| "quiet TimerFires = False"
| "quiet (Settled i outcome) = False"

text \<open>
  \<open>InfoDisplay\<close> is given the display props together with the current status, and shows
  the error when \<open>status === 'error' && error\<close> is truthy.
\<close>

definition hasError :: "('g, 't, 'w, 's) InfoAux \<Rightarrow> bool" where
  "hasError s =
     (status s = Error \<and>
      (case dp_error (displayProps s) of None \<Rightarrow> False | Some msg \<Rightarrow> msg \<noteq> []))"

text \<open>
  What holds in every state the component reaches: the throttle holds the callback of the
  latest render, and \<open>waiting\<close> is set exactly while its one timer is pending.
\<close>

definition reachable_inv :: "('g, 't, 'w, 's) InfoAux \<Rightarrow> bool" where
  "reachable_inv s =
     (callbackRef (updateRefs s) = Some \<lparr>c_pos = pos s, c_sess = rpcSess0 s, c_ms = interval s\<rparr>
      \<and> waiting (updateRefs s) = (timers (updateRefs s) \<noteq> [])
      \<and> length (timers (updateRefs s)) \<le> 1
      \<and> \<not> shouldUpdateDisplay s)"

text \<open>
  Two positions of one file, and the state of the component that several scenarios below
  start from: mounted at \<open>P1\<close>, with the first update cycle awaiting its requests.
\<close>

definition P1 :: DocumentPosition where
  "P1 = \<lparr>uri = ''a.lean'', line = 1, character = 0\<rparr>"

definition P2 :: DocumentPosition where
  "P2 = \<lparr>uri = ''a.lean'', line = 2, character = 0\<rparr>"

definition one_in_flight :: "(string, unit, unit, nat) InfoAux" where
  "one_in_flight = run [Wait 50, TimerFires] (mount P1 1 False)"

section \<open>Properties of the TaggedText evaluator\<close>

lemma render_append_sound:
  "render_append h p xs = Inr ys \<Longrightarrow>
   list_all2 (\<lambda>x y. InteractiveTaggedText h p x = Inr y) xs ys"
  by (induction xs arbitrary: ys) (auto split: sum.splits)

lemma render_append_complete:
  "list_all2 (\<lambda>x y. InteractiveTaggedText h p x = Inr y) xs ys \<Longrightarrow>
   render_append h p xs = Inr ys"
  by (induction xs ys rule: list_all2_induct) auto

lemma render_append_Inr:
  "(render_append h p xs = Inr ys) = list_all2 (\<lambda>x y. InteractiveTaggedText h p x = Inr y) xs ys"
  using render_append_sound render_append_complete by blast

lemma render_append_malformed:
  "TaggedText None None None \<in> set xs \<Longrightarrow> isl (render_append h p xs)"
  by (induction xs) (auto split: sum.splits)

text \<open>
  Claim C6. For every tree and every tag handler: a node with a \<open>text\<close> field renders as
  that string; an \<open>append\<close> node renders as the fragment of its children's renderings,
  child by child in the order of the list, so that \<open>Append [Text a, Tagged t (Text b)]\<close>
  gives \<open>a\<close> followed by the handler's rendering of \<open>Text b\<close>; a \<open>tag\<close> node is handed to
  the handler with the tag and the subtree; a node with none of the three fields throws,
  and so does every \<open>append\<close> node that holds one.
\<close>

theorem InteractiveTaggedText_contract:
  "InteractiveTaggedText h p (TaggedText (Some s) a t) = Inr (JText s)
   \<and> ((InteractiveTaggedText h p (TaggedText None (Some xs) t) = Inr out) =
        (\<exists>ys. out = JFragment ys \<and> list_all2 (\<lambda>x y. InteractiveTaggedText h p x = Inr y) xs ys))
   \<and> InteractiveTaggedText h p (Append [Text a', Tagged tg (Text b')]) =
        (case h p (Text b') tg of
           Inl e \<Rightarrow> Inl (InnerTagUiError e)
         | Inr r \<Rightarrow> Inr (JFragment [JText a', JInner r]))
   \<and> InteractiveTaggedText h p (TaggedText None None (Some (tg, sub))) =
        (case h p sub tg of Inl e \<Rightarrow> Inl (InnerTagUiError e) | Inr r \<Rightarrow> Inr (JInner r))
   \<and> InteractiveTaggedText h p (TaggedText None None None) = Inl MalformedTaggedText
   \<and> (TaggedText None None None \<in> set xs \<longrightarrow>
        isl (InteractiveTaggedText h p (TaggedText None (Some xs) t)))"
proof -
  have leaf: "InteractiveTaggedText h p (TaggedText (Some s) a t) = Inr (JText s)"
    by simp
  have app: "(InteractiveTaggedText h p (TaggedText None (Some xs) t) = Inr out) =
        (\<exists>ys. out = JFragment ys \<and> list_all2 (\<lambda>x y. InteractiveTaggedText h p x = Inr y) xs ys)"
    by (auto simp: render_append_Inr[symmetric] split: sum.splits)
  have ex: "InteractiveTaggedText h p (Append [Text a', Tagged tg (Text b')]) =
        (case h p (Text b') tg of
           Inl e \<Rightarrow> Inl (InnerTagUiError e)
         | Inr r \<Rightarrow> Inr (JFragment [JText a', JInner r]))"
    by (simp split: sum.splits)
  have bad: "TaggedText None None None \<in> set xs \<longrightarrow>
        isl (InteractiveTaggedText h p (TaggedText None (Some xs) t))"
    using render_append_malformed[of xs h p] by (auto split: sum.splits)
  show ?thesis using leaf app ex bad by simp
qed

theorem InteractiveTaggedText_contract_witness:
  "InteractiveTaggedText (\<lambda>p sub tg. Inr (tg, sub) :: unit + nat \<times> nat TaggedText)
      \<lparr>uri = ''a.lean'', line = 0, character = 0\<rparr>
      (Append [Text ''a'', Tagged 7 (Text ''b'')])
    = Inr (JFragment [JText ''a'', JInner (7, Text ''b'')])
   \<and> TaggedText None None None \<in> set [Text ''a'', TaggedText None None None :: nat TaggedText]
   \<and> isl (InteractiveTaggedText (\<lambda>p sub tg. Inr (tg, sub) :: unit + nat \<times> nat TaggedText)
      \<lparr>uri = ''a.lean'', line = 0, character = 0\<rparr>
      (Append [Text ''a'', TaggedText None None None]))"
  using InteractiveTaggedText_contract
    [where h = "\<lambda>p sub tg. Inr (tg, sub) :: unit + nat \<times> nat TaggedText"
       and p = "\<lparr>uri = ''a.lean'', line = 0, character = 0\<rparr>"
       and xs = "[Text ''a'', TaggedText None None None]" and a' = "''a''" and b' = "''b''" and tg = 7]
  by simp

section \<open>Properties of the diagnostics code\<close>



text \<open>
  Claim C8. A \<open>publishDiagnostics\<close> notification for a uri replaces the whole entry of
  that uri by the list it carries, and leaves the entry of every other uri as it was.
\<close>

theorem publishDiagnostics_replaces:
  "publishDiagnostics params diags (params_uri params) = Some (diagnostics params)
   \<and> (\<forall>u. u \<noteq> params_uri params \<longrightarrow> publishDiagnostics params diags u = diags u)"
  by (simp add: publishDiagnostics_def)

theorem publishDiagnostics_replaces_witness:
  "publishDiagnostics \<lparr>params_uri = ''a.lean'', diagnostics = []\<rparr>
      [''a.lean'' \<mapsto> [\<lparr>range = ((0, 0), (0, 4)), fullRange = None, severity = Some 1, message = ''type mismatch''\<rparr>],
       ''b.lean'' \<mapsto> [\<lparr>range = ((1, 0), (1, 4)), fullRange = None, severity = Some 2, message = ''hm''\<rparr>]]
      ''a.lean'' = Some []
   \<and> ''b.lean'' \<noteq> ''a.lean''
   \<and> publishDiagnostics \<lparr>params_uri = ''a.lean'', diagnostics = []\<rparr>
      [''a.lean'' \<mapsto> [\<lparr>range = ((0, 0), (0, 4)), fullRange = None, severity = Some 1, message = ''type mismatch''\<rparr>],
       ''b.lean'' \<mapsto> [\<lparr>range = ((1, 0), (1, 4)), fullRange = None, severity = Some 2, message = ''hm''\<rparr>]]
      ''b.lean'' = Some [\<lparr>range = ((1, 0), (1, 4)), fullRange = None, severity = Some 2, message = ''hm''\<rparr>]"
  using publishDiagnostics_replaces
    [of "\<lparr>params_uri = ''a.lean'', diagnostics = []\<rparr>"
        "[''a.lean'' \<mapsto> [\<lparr>range = ((0, 0), (0, 4)), fullRange = None, severity = Some 1, message = ''type mismatch''\<rparr>],
          ''b.lean'' \<mapsto> [\<lparr>range = ((1, 0), (1, 4)), fullRange = None, severity = Some 2, message = ''hm''\<rparr>]]"]
  by simp

section \<open>Properties of \<open>lazy\<close>\<close>





section \<open>Properties of the delayed throttle\<close>

lemma sched_run_append: "sched_run ms (xs @ ys) s = sched_run ms ys (sched_run ms xs s)"
  by (induction xs arbitrary: s) auto

lemma sched_run_snoc: "sched_run ms (xs @ [e]) s = sched_step ms e (sched_run ms xs s)"
  by (simp add: sched_run_append)

lemma sched_inv_init: "sched_inv ms (sched_init a)"
  by (simp add: sched_inv_def sched_init_def useDelayedThrottled_def throttle_new_def)

lemma sched_inv_step: "sched_inv ms s \<Longrightarrow> sched_inv ms (sched_step ms e s)"
proof (cases e)
  case (Render cb)
  assume "sched_inv ms s"
  then show ?thesis using Render by (simp add: sched_inv_def useDelayedThrottled_def)
next
  case Call
  assume "sched_inv ms s"
  then show ?thesis using Call by (auto simp: sched_inv_def trigger_def)
next
  case (Elapse d)
  assume "sched_inv ms s"
  then show ?thesis using Elapse by (auto simp: sched_inv_def)
next
  case Timeout
  assume inv: "sched_inv ms s"
  show ?thesis
  proof (cases "timers (refs s)")
    case Nil
    then show ?thesis using inv Timeout by (simp add: timer_due_def)
  next
    case (Cons d ds)
    then have ds: "ds = []" using inv by (simp add: sched_inv_def)
    obtain cb where cb: "callbackRef (refs s) = Some cb" using inv by (auto simp: sched_inv_def)
    show ?thesis
    proof (cases "d \<le> clock s")
      case True
      have "\<forall>x \<in> set (invoked s). fst x + ms \<le> clock s"
        using inv Cons True by (fastforce simp: sched_inv_def)
      then show ?thesis using inv Timeout Cons ds cb True
        by (auto simp: sched_inv_def timer_due_def timer_fired_def sorted_wrt_append)
    next
      case False
      then show ?thesis using inv Timeout Cons by (simp add: timer_due_def)
    qed
  qed
next
  case (Finished i)
  assume "sched_inv ms s"
  then show ?thesis using Finished by (simp add: sched_inv_def)
qed

lemma sched_inv_run: "sched_inv ms s \<Longrightarrow> sched_inv ms (sched_run ms evs s)"
  by (induction evs arbitrary: s) (auto simp: sched_inv_step)

lemma callbackRef_run:
  "callbackRef (refs s) = Some a \<Longrightarrow>
   callbackRef (refs (sched_run ms evs s)) = Some (latest_action a evs)"
proof (induction evs arbitrary: s a)
  case Nil
  then show ?case by simp
next
  case (Cons e evs)
  show ?case
  proof (cases e)
    case (Render b)
    have "callbackRef (refs (sched_step ms e s)) = Some b"
      using Render by (simp add: useDelayedThrottled_def)
    from Cons.IH[OF this] show ?thesis using Render by simp
  next
    case Call
    have "callbackRef (refs (sched_step ms e s)) = Some a"
      using Call Cons.prems by (simp add: trigger_def)
    from Cons.IH[OF this] show ?thesis using Call by simp
  next
    case (Elapse d)
    have "callbackRef (refs (sched_step ms e s)) = Some a"
      using Elapse Cons.prems by simp
    from Cons.IH[OF this] show ?thesis using Elapse by simp
  next
    case Timeout
    have "callbackRef (refs (sched_step ms e s)) = Some a"
      using Timeout Cons.prems by (simp add: timer_fired_def)
    from Cons.IH[OF this] show ?thesis using Timeout by simp
  next
    case (Finished i)
    have "callbackRef (refs (sched_step ms e s)) = Some a"
      using Finished Cons.prems by simp
    from Cons.IH[OF this] show ?thesis using Finished by simp
  qed
qed

text \<open>
  Claim C9. For every sequence of renders (each supplying an action), trigger calls, time
  steps, timer firings and action completions: when the pending timer fires, the action
  called is the latest one supplied before the fire, whichever action was current when
  the wait started.
\<close>

theorem fires_latest_action:
  assumes "s = sched_run ms evs (sched_init a0)" and "timer_due (clock s) (refs s)"
  shows "invoked (sched_step ms Timeout s) = invoked s @ [(clock s, latest_action a0 evs)]"
proof -
  have "callbackRef (refs (sched_init a0)) = Some a0"
    by (simp add: sched_init_def useDelayedThrottled_def)
  then have "callbackRef (refs s) = Some (latest_action a0 evs)"
    unfolding assms(1) by (rule callbackRef_run)
  then show ?thesis using assms(2) by simp
qed

theorem fires_latest_action_witness:
  "timer_due (clock (sched_run 50 [Call, Render ''new'', Elapse 50] (sched_init ''old'')))
      (refs (sched_run 50 [Call, Render ''new'', Elapse 50] (sched_init ''old'')))
   \<and> invoked (sched_step 50 Timeout (sched_run 50 [Call, Render ''new'', Elapse 50] (sched_init ''old'')))
     = [(50, ''new'')]"
proof -
  have h: "timer_due (clock (sched_run 50 [Call, Render ''new'', Elapse 50] (sched_init ''old'')))
      (refs (sched_run 50 [Call, Render ''new'', Elapse 50] (sched_init ''old'')))"
    by (simp add: sched_init_def useDelayedThrottled_def throttle_new_def trigger_def timer_due_def)
  have i: "invoked (sched_run 50 [Call, Render ''new'', Elapse 50] (sched_init ''old'')) = []"
    by (simp add: sched_init_def useDelayedThrottled_def throttle_new_def trigger_def)
  have c: "clock (sched_run 50 [Call, Render ''new'', Elapse 50] (sched_init ''old'')) = 50"
    by (simp add: sched_init_def useDelayedThrottled_def throttle_new_def trigger_def)
  show ?thesis
    using h fires_latest_action [OF refl h] by (simp only: i c latest_action.simps append_Nil simp_thms)
qed

lemma calls_while_waiting:
  "waiting (refs s) \<Longrightarrow> sched_run ms (replicate k Call) s = s"
  by (induction k) (auto simp: trigger_def)

lemma first_call_runs_once:
  assumes idle: "\<not> waiting (refs s)" and none: "timers (refs s) = []"
    and cb: "callbackRef (refs s) = Some a"
  shows "invoked (sched_run ms (Call # replicate k Call @ Elapse d # replicate j Call @ [Timeout]) s)
       = (if ms \<le> d then invoked s @ [(clock s + d, a)] else invoked s)"
proof -
  let ?s1 = "sched_step ms Call s"
  have t1: "trigger ms (clock s) (refs s) = (refs s)\<lparr>waiting := True, timers := [clock s + ms]\<rparr>"
    using idle none by (simp add: trigger_def)
  have w1: "waiting (refs ?s1)" by (simp add: t1)
  let ?s2 = "sched_step ms (Elapse d) ?s1"
  have w2: "waiting (refs ?s2)" by (simp add: t1)
  have run: "sched_run ms (Call # replicate k Call @ Elapse d # replicate j Call @ [Timeout]) s
        = sched_step ms Timeout ?s2"
    using calls_while_waiting[OF w1, of ms k] calls_while_waiting[OF w2, of ms j]
    by (simp add: sched_run_append)
  show ?thesis
    unfolding run using cb by (simp add: t1 timer_due_def)
qed

text \<open>
  Claim C4, as the code has it. In every state the scheduler reaches with a fixed
  interval \<open>ms\<close>: \<open>waiting\<close> is set exactly while a timer is pending, and at most one is;
  a call arriving while a wait is outstanding changes nothing; a call arriving while no
  wait is outstanding starts a wait of \<open>ms\<close>, whether or not an action is outstanding;
  such a call, followed by any number of further calls before and after \<open>d\<close>
  milliseconds pass, makes the timer callback call the latest action exactly once if
  \<open>ms \<le> d\<close> and not at all before; when the timer callback runs it ends the wait and
  calls the latest action, which is then outstanding, and a call made right then starts
  the next wait; and any two calls of an action are at least \<open>ms\<close> apart.
\<close>

theorem delayed_throttle_coalesces:
  assumes "s = sched_run ms evs (sched_init a0)"
  shows "length (timers (refs s)) \<le> 1
       \<and> waiting (refs s) = (timers (refs s) \<noteq> [])
       \<and> (waiting (refs s) \<longrightarrow> sched_step ms Call s = s)
       \<and> (\<not> waiting (refs s) \<longrightarrow>
            sched_step ms Call s
              = s\<lparr>refs := (refs s)\<lparr>waiting := True, timers := [clock s + ms]\<rparr>\<rparr>)
       \<and> (\<not> waiting (refs s) \<longrightarrow>
            (\<forall>k j d. invoked (sched_run ms
                        (Call # replicate k Call @ Elapse d # replicate j Call @ [Timeout]) s)
                     = (if ms \<le> d then invoked s @ [(clock s + d, latest_action a0 evs)]
                        else invoked s)))
       \<and> (timer_due (clock s) (refs s) \<longrightarrow>
            sched_step ms Timeout s
              = s\<lparr>refs := (refs s)\<lparr>waiting := False, timers := []\<rparr>,
                  running := running s @ [latest_action a0 evs],
                  invoked := invoked s @ [(clock s, latest_action a0 evs)]\<rparr>
          \<and> running (sched_run ms [Timeout, Call] s) \<noteq> []
          \<and> timers (refs (sched_run ms [Timeout, Call] s)) = [clock s + ms])
       \<and> (\<not> timer_due (clock s) (refs s) \<longrightarrow> sched_step ms Timeout s = s)
       \<and> sorted_wrt (\<lambda>x y. fst x + ms \<le> fst y) (invoked s)"
proof -
  have inv: "sched_inv ms s"
    unfolding assms by (rule sched_inv_run[OF sched_inv_init])
  have "callbackRef (refs (sched_init a0)) = Some a0"
    by (simp add: sched_init_def useDelayedThrottled_def)
  then have cb: "callbackRef (refs s) = Some (latest_action a0 evs)"
    unfolding assms by (rule callbackRef_run)
  have one: "length (timers (refs s)) \<le> 1" using inv by (simp add: sched_inv_def)
  have flag: "waiting (refs s) = (timers (refs s) \<noteq> [])" using inv by (simp add: sched_inv_def)
  have drop: "waiting (refs s) \<longrightarrow> sched_step ms Call s = s" by (simp add: trigger_def)
  have start: "\<not> waiting (refs s) \<longrightarrow>
            sched_step ms Call s
              = s\<lparr>refs := (refs s)\<lparr>waiting := True, timers := [clock s + ms]\<rparr>\<rparr>"
    using flag by (simp add: trigger_def)
  have idle: "\<not> waiting (refs s) \<longrightarrow>
            (\<forall>k j d. invoked (sched_run ms
                        (Call # replicate k Call @ Elapse d # replicate j Call @ [Timeout]) s)
                     = (if ms \<le> d then invoked s @ [(clock s + d, latest_action a0 evs)]
                        else invoked s))"
  proof (intro impI allI)
    fix k j d
    assume nw: "\<not> waiting (refs s)"
    then have "timers (refs s) = []" using inv by (simp add: sched_inv_def)
    from first_call_runs_once[OF nw this cb]
    show "invoked (sched_run ms
                        (Call # replicate k Call @ Elapse d # replicate j Call @ [Timeout]) s)
                     = (if ms \<le> d then invoked s @ [(clock s + d, latest_action a0 evs)]
                        else invoked s)" .
  qed
  have fire: "timer_due (clock s) (refs s) \<longrightarrow>
            sched_step ms Timeout s
              = s\<lparr>refs := (refs s)\<lparr>waiting := False, timers := []\<rparr>,
                  running := running s @ [latest_action a0 evs],
                  invoked := invoked s @ [(clock s, latest_action a0 evs)]\<rparr>
          \<and> running (sched_run ms [Timeout, Call] s) \<noteq> []
          \<and> timers (refs (sched_run ms [Timeout, Call] s)) = [clock s + ms]"
  proof
    assume due: "timer_due (clock s) (refs s)"
    then obtain d where d: "timers (refs s) = [d]"
      using one by (cases "timers (refs s)") (auto simp: timer_due_def)
    have st: "sched_step ms Timeout s
              = s\<lparr>refs := (refs s)\<lparr>waiting := False, timers := []\<rparr>,
                  running := running s @ [latest_action a0 evs],
                  invoked := invoked s @ [(clock s, latest_action a0 evs)]\<rparr>"
      using due cb d by (simp add: timer_fired_def)
    have "sched_run ms [Timeout, Call] s = sched_step ms Call (sched_step ms Timeout s)"
      by simp
    then have "running (sched_run ms [Timeout, Call] s) \<noteq> []
          \<and> timers (refs (sched_run ms [Timeout, Call] s)) = [clock s + ms]"
      unfolding st by (simp add: trigger_def)
    then show "sched_step ms Timeout s
              = s\<lparr>refs := (refs s)\<lparr>waiting := False, timers := []\<rparr>,
                  running := running s @ [latest_action a0 evs],
                  invoked := invoked s @ [(clock s, latest_action a0 evs)]\<rparr>
          \<and> running (sched_run ms [Timeout, Call] s) \<noteq> []
          \<and> timers (refs (sched_run ms [Timeout, Call] s)) = [clock s + ms]"
      using st by blast
  qed
  have early: "\<not> timer_due (clock s) (refs s) \<longrightarrow> sched_step ms Timeout s = s" by simp
  have apart: "sorted_wrt (\<lambda>x y. fst x + ms \<le> fst y) (invoked s)"
    using inv by (simp add: sched_inv_def)
  show ?thesis using one flag drop start idle fire early apart by blast
qed

text \<open>
  Claim C4 as stated fails: \<open>waiting\<close> is cleared before the action is called, so a call
  that arrives while the action is outstanding starts a new wait, and the second action
  runs while the first is still outstanding.
\<close>

theorem call_during_action_counterexample:
  "running (sched_run 50 [Call, Elapse 50, Timeout] (sched_init ''update'')) = [''update'']
   \<and> timers (refs (sched_run 50 [Call, Elapse 50, Timeout, Call] (sched_init ''update''))) = [100]
   \<and> invoked (sched_run 50 [Call, Elapse 50, Timeout, Call, Elapse 50, Timeout] (sched_init ''update''))
       = [(50, ''update''), (100, ''update'')]
   \<and> running (sched_run 50 [Call, Elapse 50, Timeout, Call, Elapse 50, Timeout] (sched_init ''update''))
       = [''update'', ''update'']"
  by (simp add: sched_init_def useDelayedThrottled_def throttle_new_def trigger_def
      timer_due_def timer_fired_def)

theorem delayed_throttle_coalesces_witness:
  "waiting (refs (sched_run 50 [Call, Elapse 20] (sched_init ''update'')))
   \<and> sched_step 50 Call (sched_run 50 [Call, Elapse 20] (sched_init ''update''))
       = sched_run 50 [Call, Elapse 20] (sched_init ''update'')
   \<and> timer_due (clock (sched_run 50 [Call, Elapse 50] (sched_init ''update'')))
        (refs (sched_run 50 [Call, Elapse 50] (sched_init ''update'')))
   \<and> running (sched_run 50 [Timeout, Call] (sched_run 50 [Call, Elapse 50] (sched_init ''update'')))
       \<noteq> []
   \<and> timers (refs (sched_run 50 [Timeout, Call]
        (sched_run 50 [Call, Elapse 50] (sched_init ''update'')))) = [100]
   \<and> \<not> waiting (refs (sched_run 50 [Call, Elapse 50, Timeout] (sched_init ''update'')))
   \<and> running (sched_run 50 [Call, Elapse 50, Timeout] (sched_init ''update'')) = [''update'']
   \<and> timers (refs (sched_step 50 Call
        (sched_run 50 [Call, Elapse 50, Timeout] (sched_init ''update'')))) = [100]
   \<and> invoked (sched_run 50 [Call, Call, Call, Elapse 70, Call, Timeout]
        (sched_run 50 [Call, Elapse 50, Timeout] (sched_init ''update'')))
       = [(50, ''update''), (120, ''update'')]"
proof -
  define A where "A = sched_run 50 [Call, Elapse 20] (sched_init ''update'')"
  define B where "B = sched_run 50 [Call, Elapse 50] (sched_init ''update'')"
  define C where "C = sched_run 50 [Call, Elapse 50, Timeout] (sched_init ''update'')"
  note TA = delayed_throttle_coalesces [OF A_def]
  note TB = delayed_throttle_coalesces [OF B_def]
  note TC = delayed_throttle_coalesces [OF C_def]
  have w: "waiting (refs A)"
    by (simp add: A_def sched_init_def useDelayedThrottled_def throttle_new_def trigger_def)
  have a: "sched_step 50 Call A = A" using w TA by blast
  have due: "timer_due (clock B) (refs B)"
    by (simp add: B_def sched_init_def useDelayedThrottled_def throttle_new_def trigger_def
        timer_due_def)
  have cB: "clock B = 50"
    by (simp add: B_def sched_init_def)
  have "running (sched_run 50 [Timeout, Call] B) \<noteq> []
      \<and> timers (refs (sched_run 50 [Timeout, Call] B)) = [clock B + 50]"
    using due TB by blast
  then have b: "running (sched_run 50 [Timeout, Call] B) \<noteq> []"
    and b': "timers (refs (sched_run 50 [Timeout, Call] B)) = [100]"
    by (simp_all only: cB) simp_all
  have evC: "\<not> waiting (refs C)" "running C = [''update'']" "clock C = 50"
    "invoked C = [(50, ''update'')]"
    by (simp_all add: C_def sched_init_def useDelayedThrottled_def throttle_new_def trigger_def
        timer_due_def timer_fired_def)
  have "sched_step 50 Call C = C\<lparr>refs := (refs C)\<lparr>waiting := True, timers := [clock C + 50]\<rparr>\<rparr>"
    using evC(1) TC by blast
  then have c: "timers (refs (sched_step 50 Call C)) = [100]"
    by (simp only: evC) simp
  have "\<forall>k j d. invoked (sched_run 50
                        (Call # replicate k Call @ Elapse d # replicate j Call @ [Timeout]) C)
                     = (if 50 \<le> d then invoked C
                            @ [(clock C + d, latest_action ''update'' [Call, Elapse 50, Timeout])]
                        else invoked C)"
    using evC(1) TC by blast
  from this[rule_format, of 2 70 1]
  have d: "invoked (sched_run 50 [Call, Call, Call, Elapse 70, Call, Timeout] C)
       = [(50, ''update''), (120, ''update'')]"
    by (simp add: numeral_2_eq_2 evC)
  show ?thesis
    unfolding A_def[symmetric] B_def[symmetric] C_def[symmetric]
    using w a due b b' evC(1,2) c d by blast
qed

section \<open>Properties of the goal-state controller\<close>

lemma run_append: "run (xs @ ys) s = run ys (run xs s)"
  by (induction xs arbitrary: s) auto

lemma render_fields [simp]:
  "pos (render s) = pos s" "rpcSess0 (render s) = rpcSess0 s"
  "serverIsProcessing (render s) = serverIsProcessing s" "status (render s) = status s"
  "goals (render s) = goals s" "termGoal (render s) = termGoal s"
  "userWidgets (render s) = userWidgets s" "error (render s) = error s"
  "rpcSess (render s) = rpcSess s" "now (render s) = now s" "inflight (render s) = inflight s"
  "shouldUpdateDisplay (render s) = False"
  "displayProps (render s) = (if shouldUpdateDisplay s then mkDisplayProps s else displayProps s)"
  "waiting (updateRefs (render s)) = waiting (updateRefs s)"
  "timers (updateRefs (render s)) = timers (updateRefs s)"
  "callbackRef (updateRefs (render s)) =
     Some \<lparr>c_pos = pos s, c_sess = rpcSess0 s, c_ms = interval s\<rparr>"
  "interval (render s) = interval s"
  by (simp_all add: render_def Let_def useDelayedThrottled_def interval_def)

lemma triggerUpdate_fields [simp]:
  "pos (triggerUpdate s) = pos s" "rpcSess0 (triggerUpdate s) = rpcSess0 s"
  "serverIsProcessing (triggerUpdate s) = serverIsProcessing s"
  "status (triggerUpdate s) = status s" "error (triggerUpdate s) = error s"
  "displayProps (triggerUpdate s) = displayProps s" "inflight (triggerUpdate s) = inflight s"
  "shouldUpdateDisplay (triggerUpdate s) = shouldUpdateDisplay s"
  "now (triggerUpdate s) = now s"
  "updateRefs (triggerUpdate s) = trigger (interval s) (now s) (updateRefs s)"
  "interval (triggerUpdate s) = interval s"
  by (simp_all add: triggerUpdate_def interval_def)

lemma trigger_fields [simp]:
  "callbackRef (trigger ms t r) = callbackRef r"
  "waiting (trigger ms t r) = True"
  "timers (trigger ms t r) = (if waiting r then timers r else timers r @ [t + ms])"
  by (simp_all add: trigger_def)

lemma timer_fired_fields [simp]:
  "callbackRef (timer_fired r) = callbackRef r"
  "waiting (timer_fired r) = False"
  "timers (timer_fired r) = tl (timers r)"
  by (simp_all add: timer_fired_def)

lemma reachable_inv_mount: "reachable_inv (mount p sess processing)"
  by (simp add: reachable_inv_def mount_def throttle_new_def interval_def)

lemma reachable_inv_step:
  assumes inv: "reachable_inv s"
  shows "reachable_inv (step e s)"
proof (cases e)
  case (Rerender p sess processing)
  then show ?thesis using inv
    by (auto simp: reachable_inv_def Let_def interval_def)
next
  case Update
  then show ?thesis using inv by (auto simp: reachable_inv_def)
next
  case (Wait d)
  then show ?thesis using inv by (auto simp: reachable_inv_def interval_def)
next
  case TimerFires
  show ?thesis
  proof (cases "timers (updateRefs s)")
    case Nil
    then show ?thesis using inv TimerFires by (simp add: timer_due_def)
  next
    case (Cons d ds)
    then have "ds = []" using inv by (simp add: reachable_inv_def)
    then show ?thesis using inv TimerFires Cons
      by (auto simp: reachable_inv_def startUpdate_def interval_def)
  qed
next
  case (Settled i outcome)
  show ?thesis
  proof (cases "i < length (inflight s)")
    case False
    then show ?thesis using inv Settled by simp
  next
    case True
    show ?thesis
    proof (cases outcome)
      case (Inr r)
      then show ?thesis using inv Settled True
        by (cases r) (auto simp: reachable_inv_def onFulfilled_def Let_def interval_def)
    next
      case (Inl ex)
      then show ?thesis using inv Settled True
        by (auto simp: reachable_inv_def onRejected_def Let_def interval_def split: option.splits)
    qed
  qed
qed

lemma reachable_inv_run: "reachable_inv s \<Longrightarrow> reachable_inv (run evs s)"
  by (induction evs arbitrary: s) (auto simp: reachable_inv_step)


text \<open>
  Claim C1, evaluated at the input on which the code departs from it. The component is
  mounted at \<open>P1\<close> and starts a cycle for it; the position changes to \<open>P2\<close> and a second
  cycle starts; the requests of the second cycle are fulfilled first, and \<open>P2\<close> is
  committed with its goals and session. Then the requests of the first cycle are
  fulfilled: the late response is not discarded, its goals and session replace those of
  \<open>P2\<close> in the committed display props, which still show \<open>P2\<close>. Nothing is awaited and
  no timer is pending afterwards, so the snapshot stays.
\<close>

theorem late_response_overwrites:
  "displayProps (run [Wait 50, TimerFires, Rerender P2 2 False, Wait 50, TimerFires,
        Settled 1 (Inr (Some ''goals at 2'', None, None))]
      (mount P1 (1::nat) False :: (string, unit, unit, nat) InfoAux))
     = \<lparr>dp_pos = P2, dp_goals = Some ''goals at 2'', dp_termGoal = None, dp_error = None,
        dp_rpcSess = 2, dp_userWidgets = None\<rparr>
   \<and> inflight (run [Wait 50, TimerFires, Rerender P2 2 False, Wait 50, TimerFires,
        Settled 1 (Inr (Some ''goals at 2'', None, None))]
      (mount P1 (1::nat) False :: (string, unit, unit, nat) InfoAux))
     = [\<lparr>c_pos = P1, c_sess = 1, c_ms = 50\<rparr>]
   \<and> displayProps (run [Wait 50, TimerFires, Rerender P2 2 False, Wait 50, TimerFires,
        Settled 1 (Inr (Some ''goals at 2'', None, None)),
        Settled 0 (Inr (Some ''goals at 1'', None, None))]
      (mount P1 (1::nat) False :: (string, unit, unit, nat) InfoAux))
     = \<lparr>dp_pos = P2, dp_goals = Some ''goals at 1'', dp_termGoal = None, dp_error = None,
        dp_rpcSess = 1, dp_userWidgets = None\<rparr>
   \<and> status (run [Wait 50, TimerFires, Rerender P2 2 False, Wait 50, TimerFires,
        Settled 1 (Inr (Some ''goals at 2'', None, None)),
        Settled 0 (Inr (Some ''goals at 1'', None, None))]
      (mount P1 (1::nat) False :: (string, unit, unit, nat) InfoAux)) = Ready
   \<and> inflight (run [Wait 50, TimerFires, Rerender P2 2 False, Wait 50, TimerFires,
        Settled 1 (Inr (Some ''goals at 2'', None, None)),
        Settled 0 (Inr (Some ''goals at 1'', None, None))]
      (mount P1 (1::nat) False :: (string, unit, unit, nat) InfoAux)) = []
   \<and> timers (updateRefs (run [Wait 50, TimerFires, Rerender P2 2 False, Wait 50, TimerFires,
        Settled 1 (Inr (Some ''goals at 2'', None, None)),
        Settled 0 (Inr (Some ''goals at 1'', None, None))]
      (mount P1 (1::nat) False :: (string, unit, unit, nat) InfoAux))) = []
   \<and> \<not> waiting (updateRefs (run [Wait 50, TimerFires, Rerender P2 2 False, Wait 50, TimerFires,
        Settled 1 (Inr (Some ''goals at 2'', None, None)),
        Settled 0 (Inr (Some ''goals at 1'', None, None))]
      (mount P1 (1::nat) False :: (string, unit, unit, nat) InfoAux)))"
  by (simp add: mount_def P1_def P2_def throttle_new_def interval_def timer_due_def
      startUpdate_def onFulfilled_def mkDisplayProps_def Let_def)

text \<open>
  Claim C5, evaluated at the input on which the code departs from it. A cycle is started
  at \<open>P1\<close>, the position changes to \<open>P2\<close>, and the requests of the cycle are fulfilled
  before any cycle for \<open>P2\<close> has started: the display props that are committed pair the
  new position \<open>P2\<close> with the goals and the session fetched for \<open>P1\<close>, and no request
  is awaited any more.
\<close>

theorem stale_goals_at_new_position:
  "displayProps (run [Wait 50, TimerFires, Rerender P2 2 False,
        Settled 0 (Inr (Some ''goals at 1'', None, None))]
      (mount P1 (1::nat) False :: (string, unit, unit, nat) InfoAux))
     = \<lparr>dp_pos = P2, dp_goals = Some ''goals at 1'', dp_termGoal = None, dp_error = None,
        dp_rpcSess = 1, dp_userWidgets = None\<rparr>
   \<and> inflight (run [Wait 50, TimerFires, Rerender P2 2 False,
        Settled 0 (Inr (Some ''goals at 1'', None, None))]
      (mount P1 (1::nat) False :: (string, unit, unit, nat) InfoAux)) = []"
  by (simp add: mount_def P1_def P2_def throttle_new_def interval_def timer_due_def
      startUpdate_def onFulfilled_def mkDisplayProps_def Let_def)

text \<open>
  Claim C2 as stated fails, in two ways. An instance of \<open>Error\<close> such as
  \<open>new Error("boom")\<close> serialises to \<open>{}\<close>, yet the \<open>instanceof Error\<close> test comes
  first, so the status becomes \<open>error\<close> and the error is shown. And for a plain \<open>{}\<close> the
  status is not the one from before the cycle: a component that was \<open>ready\<close> is left
  \<open>updating\<close>, as set when the cycle started.
\<close>

theorem error_instance_counterexample:
  "serializes_empty (ThrownError ''Error: boom'' ''{}'')
   \<and> status (run [Wait 50, TimerFires, Settled 0 (Inl (ThrownError ''Error: boom'' ''{}''))]
        (mount P1 (1::nat) False :: (string, unit, unit, nat) InfoAux)) = Error
   \<and> error (run [Wait 50, TimerFires, Settled 0 (Inl (ThrownError ''Error: boom'' ''{}''))]
        (mount P1 (1::nat) False :: (string, unit, unit, nat) InfoAux))
       = Some ''Error fetching goals: Error: boom''
   \<and> hasError (run [Wait 50, TimerFires, Settled 0 (Inl (ThrownError ''Error: boom'' ''{}''))]
        (mount P1 (1::nat) False :: (string, unit, unit, nat) InfoAux))
   \<and> serializes_empty (ThrownOther ''{}'')
   \<and> status (run [Settled 0 (Inr (Some ''goals at 1'', None, None))] one_in_flight) = Ready
   \<and> status (run [Settled 0 (Inr (Some ''goals at 1'', None, None)),
                   Update, Wait 50, TimerFires, Settled 0 (Inl (ThrownOther ''{}''))]
                one_in_flight) = Updating"
  by (simp add: one_in_flight_def mount_def P1_def throttle_new_def interval_def timer_due_def
      serializes_empty_def startUpdate_def onRejected_def onFulfilled_def isContentModified_def
      errorString_def hasError_def mkDisplayProps_def Let_def)



lemma empty_error_class:
  "ex = ThrownUndefined \<or> ex = ThrownOther ''{}'' \<Longrightarrow>
   \<not> isContentModified ex \<and> errorString ex = None"
  by (auto simp: isContentModified_def errorString_def)

lemma timer_fires_starts_cycle:
  assumes "reachable_inv s" and "timer_due (now s) (updateRefs s)"
  shows "step TimerFires s =
           startUpdate \<lparr>c_pos = pos s, c_sess = rpcSess0 s, c_ms = interval s\<rparr>
             (s\<lparr>updateRefs := timer_fired (updateRefs s)\<rparr>)"
  using assms by (simp add: reachable_inv_def)

lemma quiet_run:
  "list_all quiet mid \<Longrightarrow> status (run mid s) = status s \<and> inflight (run mid s) = inflight s"
proof (induction mid arbitrary: s)
  case Nil
  then show ?case by simp
next
  case (Cons e mid)
  have q: "quiet e" and rest: "list_all quiet mid" using Cons.prems by simp_all
  have "status (step e s) = status s \<and> inflight (step e s) = inflight s"
    using q by (cases e) (simp_all add: Let_def)
  then show ?case using Cons.IH[OF rest, of "step e s"] by simp
qed

text \<open>
  Claim C2, as the code has it. In every state the component reaches, for a thrown value
  that is \<open>undefined\<close>, or that is no string, no RPC error and no \<open>Error\<close> and serialises to
  \<open>{}\<close>: when an awaited cycle is rejected with it, the error is cleared, the status and
  the display props stay as they were and no timer is started. So the status after the
  rejection is the one from just before it; and a cycle during which no other cycle starts
  or settles (renders, requests for an update and the passing of time may come in between)
  ends with status \<open>updating\<close>, as set when the cycle started, with no error and no error
  shown.
\<close>

theorem empty_error_suppressed:
  assumes reach: "s = run evs (mount p sess processing)"
    and empty: "ex = ThrownUndefined \<or> ex = ThrownOther ''{}''"
  shows "(i < length (inflight s) \<longrightarrow>
            error (step (Settled i (Inl ex)) s) = None
          \<and> status (step (Settled i (Inl ex)) s) = status s
          \<and> displayProps (step (Settled i (Inl ex)) s) = displayProps s
          \<and> timers (updateRefs (step (Settled i (Inl ex)) s)) = timers (updateRefs s))
       \<and> (timer_due (now s) (updateRefs s) \<and> list_all quiet mid \<longrightarrow>
            status (run (TimerFires # mid @ [Settled (length (inflight s)) (Inl ex)]) s)
              = Updating
          \<and> error (run (TimerFires # mid @ [Settled (length (inflight s)) (Inl ex)]) s) = None
          \<and> \<not> hasError (run (TimerFires # mid @ [Settled (length (inflight s)) (Inl ex)]) s))"
proof -
  have inv: "reachable_inv s"
    unfolding reach by (rule reachable_inv_run[OF reachable_inv_mount])
  note cls = empty_error_class[OF empty]
  have handler: "i < length (inflight s) \<longrightarrow>
            error (step (Settled i (Inl ex)) s) = None
          \<and> status (step (Settled i (Inl ex)) s) = status s
          \<and> displayProps (step (Settled i (Inl ex)) s) = displayProps s
          \<and> timers (updateRefs (step (Settled i (Inl ex)) s)) = timers (updateRefs s)"
    using inv cls by (simp add: onRejected_def Let_def reachable_inv_def)
  have cycle: "timer_due (now s) (updateRefs s) \<and> list_all quiet mid \<longrightarrow>
            status (run (TimerFires # mid @ [Settled (length (inflight s)) (Inl ex)]) s)
              = Updating
          \<and> error (run (TimerFires # mid @ [Settled (length (inflight s)) (Inl ex)]) s) = None
          \<and> \<not> hasError (run (TimerFires # mid @ [Settled (length (inflight s)) (Inl ex)]) s)"
  proof
    assume hyp: "timer_due (now s) (updateRefs s) \<and> list_all quiet mid"
    then have due: "timer_due (now s) (updateRefs s)" and q: "list_all quiet mid" by simp_all
    define s1 where "s1 = step TimerFires s"
    have s1: "s1 = startUpdate \<lparr>c_pos = pos s, c_sess = rpcSess0 s, c_ms = interval s\<rparr>
             (s\<lparr>updateRefs := timer_fired (updateRefs s)\<rparr>)"
      unfolding s1_def by (rule timer_fires_starts_cycle[OF inv due])
    have f1: "inflight s1 = inflight s @ [\<lparr>c_pos = pos s, c_sess = rpcSess0 s, c_ms = interval s\<rparr>]"
      and f2: "status s1 = Updating"
      by (simp_all add: s1 startUpdate_def)
    define s2 where "s2 = run mid s1"
    have g1: "inflight s2 = inflight s @ [\<lparr>c_pos = pos s, c_sess = rpcSess0 s, c_ms = interval s\<rparr>]"
      and g2: "status s2 = Updating"
      using quiet_run[OF q, of s1] f1 f2 by (simp_all add: s2_def)
    have r: "run (TimerFires # mid @ [Settled (length (inflight s)) (Inl ex)]) s
               = step (Settled (length (inflight s)) (Inl ex)) s2"
      by (simp add: s1_def s2_def run_append)
    have "status (step (Settled (length (inflight s)) (Inl ex)) s2) = Updating
        \<and> error (step (Settled (length (inflight s)) (Inl ex)) s2) = None"
      using cls g1 g2 by (simp add: onRejected_def Let_def)
    then show "status (run (TimerFires # mid @ [Settled (length (inflight s)) (Inl ex)]) s)
              = Updating
          \<and> error (run (TimerFires # mid @ [Settled (length (inflight s)) (Inl ex)]) s) = None
          \<and> \<not> hasError (run (TimerFires # mid @ [Settled (length (inflight s)) (Inl ex)]) s)"
      unfolding r by (simp add: hasError_def)
  qed
  show ?thesis using handler cycle by blast
qed



lemma one_in_flight_eval:
  "inflight one_in_flight = [\<lparr>c_pos = P1, c_sess = 1, c_ms = 50\<rparr>]"
  "waiting (updateRefs one_in_flight) = False" "timers (updateRefs one_in_flight) = []"
  "now one_in_flight = 50" "status one_in_flight = Updating" "pos one_in_flight = P1"
  "rpcSess0 one_in_flight = 1" "serverIsProcessing one_in_flight = False"
  "error one_in_flight = None"
  by (simp_all add: one_in_flight_def mount_def P1_def throttle_new_def interval_def
      timer_due_def startUpdate_def)

theorem empty_error_suppressed_witness:
  "0 < length (inflight one_in_flight)
   \<and> error (step (Settled 0 (Inl (ThrownOther ''{}''))) one_in_flight) = None
   \<and> status (step (Settled 0 (Inl (ThrownOther ''{}''))) one_in_flight) = Updating
   \<and> timer_due (now (run [Wait 50] (mount P1 (1::nat) False :: (string, unit, unit, nat) InfoAux)))
        (updateRefs (run [Wait 50] (mount P1 (1::nat) False :: (string, unit, unit, nat) InfoAux)))
   \<and> list_all quiet [Rerender P2 2 False, Update, Wait 10 :: (string, unit, unit, nat) event]
   \<and> status (run [TimerFires, Rerender P2 2 False, Update, Wait 10, Settled 0 (Inl ThrownUndefined)]
        (run [Wait 50] (mount P1 (1::nat) False :: (string, unit, unit, nat) InfoAux))) = Updating
   \<and> \<not> hasError (run [TimerFires, Rerender P2 2 False, Update, Wait 10, Settled 0 (Inl ThrownUndefined)]
        (run [Wait 50] (mount P1 (1::nat) False :: (string, unit, unit, nat) InfoAux)))"
proof -
  define S0 :: "(string, unit, unit, nat) InfoAux" where "S0 = run [Wait 50] (mount P1 1 False)"
  define mid :: "(string, unit, unit, nat) event list" where
    "mid = [Rerender P2 2 False, Update, Wait 10]"
  have a: "0 < length (inflight one_in_flight)" by (simp add: one_in_flight_eval)
  have d: "timer_due (now S0) (updateRefs S0)"
    by (simp add: S0_def mount_def throttle_new_def interval_def timer_due_def)
  have q: "list_all quiet mid" by (simp add: mid_def)
  have l: "length (inflight S0) = 0"
    by (simp add: S0_def mount_def)
  have e1: "ThrownOther ''{}'' = ThrownUndefined \<or> ThrownOther ''{}'' = ThrownOther ''{}''" by simp
  have e2: "ThrownUndefined = ThrownUndefined \<or> ThrownUndefined = ThrownOther ''{}''" by simp
  note T1 = empty_error_suppressed [OF one_in_flight_def e1, where i = 0]
  note T2 = empty_error_suppressed [OF S0_def e2, where i = 0 and mid = mid]
  have b: "error (step (Settled 0 (Inl (ThrownOther ''{}''))) one_in_flight) = None"
    using T1 a by blast
  have "status (step (Settled 0 (Inl (ThrownOther ''{}''))) one_in_flight) = status one_in_flight"
    using T1 a by blast
  then have c: "status (step (Settled 0 (Inl (ThrownOther ''{}''))) one_in_flight) = Updating"
    by (simp only: one_in_flight_eval)
  have "status (run (TimerFires # mid @ [Settled 0 (Inl ThrownUndefined)]) S0) = Updating
         \<and> \<not> hasError (run (TimerFires # mid @ [Settled 0 (Inl ThrownUndefined)]) S0)"
    using T2 d q unfolding l by blast
  then have f: "status (run [TimerFires, Rerender P2 2 False, Update, Wait 10,
                             Settled 0 (Inl ThrownUndefined)] S0) = Updating
         \<and> \<not> hasError (run [TimerFires, Rerender P2 2 False, Update, Wait 10,
                             Settled 0 (Inl ThrownUndefined)] S0)"
    unfolding mid_def append.simps .
  show ?thesis unfolding S0_def[symmetric] using a b c d q[unfolded mid_def] f by blast
qed


end
